theory Spec2Isabelle
  imports Complex_Main "HOL-Library.Multiset"
begin

section \<open>Dialogue encoder\<close>

text \<open>
  The tokenizer is an external collaborator. The code asks it only for the ids of the five
  reserved tokens (\<^verbatim>\<open>tokenizer.convert_tokens_to_ids(SPECIAL_TOKENS)\<close>), so it is
  modelled by those five ids. Token ids are Python integers.
\<close>

record tokenizer =
  bos :: int
  eos :: int
  speaker1 :: int
  speaker2 :: int
  pad :: int

text \<open>\<^verbatim>\<open>SPECIAL_TOKENS = ["<bos>", "<eos>", "<speaker1>", "<speaker2>", "<pad>"]\<close>\<close>

definition special_tokens_ids :: "tokenizer \<Rightarrow> int list" where
  "special_tokens_ids tok = [bos tok, eos tok, speaker1 tok, speaker2 tok, pad tok]"

text \<open>The dictionary \<^verbatim>\<open>instance\<close> returned by \<^verbatim>\<open>build_input_from_segments\<close>.\<close>

record instance_t =
  input_ids :: "int list"
  token_type_ids :: "int list"
  mc_token_ids :: int
  labels :: "int list"

text \<open>
  The local variable \<^verbatim>\<open>sequence\<close> after its second assignment: the persona block, the
  history turns and the reply, every segment but the first prefixed with a speaker token.
  In the comprehension \<^verbatim>\<open>len(sequence)\<close> is the length of the list of the first
  assignment and \<^verbatim>\<open>i\<close> counts from 0 over \<^verbatim>\<open>sequence[1:]\<close>.
\<close>

definition tagged_sequence ::
  "tokenizer \<Rightarrow> int list list \<Rightarrow> int list list \<Rightarrow> int list \<Rightarrow> bool \<Rightarrow> int list list" where
  "tagged_sequence tok persona history reply with_eos =
     (let sequence = [bos tok # concat persona] @ history
                       @ [reply @ (if with_eos then [eos tok] else [])]
      in hd sequence #
         map (\<lambda>(i, s). (if (int (length sequence) - int i) mod 2 \<noteq> 0
                          then speaker2 tok else speaker1 tok) # s)
             (enumerate 0 (tl sequence)))"

definition build_input_from_segments ::
  "tokenizer \<Rightarrow> int list list \<Rightarrow> int list list \<Rightarrow> int list \<Rightarrow> bool \<Rightarrow> bool \<Rightarrow> instance_t" where
  "build_input_from_segments tok persona history reply lbls with_eos =
     (let sequence = tagged_sequence tok persona history reply with_eos;
          ids = concat sequence;
          tts = concat (map (\<lambda>(i, s). replicate (length s)
                                (if i mod 2 \<noteq> 0 then speaker2 tok else speaker1 tok))
                            (enumerate 0 sequence));
          lab = (if lbls
                 then replicate (sum_list (map length (butlast sequence))) (- 100)
                        @ [- 100] @ tl (last sequence)
                 else replicate (length ids) (- 100))
      in \<lparr>input_ids = ids, token_type_ids = tts,
          mc_token_ids = int (length ids) - 1, labels = lab\<rparr>)"

text \<open>Start position, in the flattened arrays, of the segment with index \<open>j\<close>.\<close>

definition seg_offset :: "'a list list \<Rightarrow> nat \<Rightarrow> nat" where
  "seg_offset sequence j = sum_list (map length (take j sequence))"

text \<open>A tokenizer whose reserved tokens have the ids 0 to 4, for concrete evaluations.\<close>

definition example_tokenizer :: tokenizer where
  "example_tokenizer = \<lparr>bos = 0, eos = 1, speaker1 = 2, speaker2 = 3, pad = 4\<rparr>"

section \<open>Constrained decoder\<close>

subsection \<open>Scores and the tensor library\<close>

text \<open>
  An entry of a logits tensor is a finite number or negative infinity, the value the filter
  writes (\<^verbatim>\<open>-float("Inf")\<close>). The filter only compares scores, and the comparison of
  floating-point numbers is exact, so finite scores are modelled as reals. NaN and positive
  infinity are left out: the model's logits are finite.
\<close>

datatype score = NegInf | Fin real

instantiation score :: linorder
begin

fun less_eq_score :: "score \<Rightarrow> score \<Rightarrow> bool" where
  "less_eq_score NegInf y = True"
| "less_eq_score (Fin x) NegInf = False"
| "less_eq_score (Fin x) (Fin y) = (x \<le> y)"

definition less_score :: "score \<Rightarrow> score \<Rightarrow> bool" where
  "less_score x y = (x \<le> y \<and> \<not> y \<le> x)"

instance
proof
  fix x y z :: score
  show "(x < y) = (x \<le> y \<and> \<not> y \<le> x)"
    by (simp add: less_score_def)
  show "x \<le> x"
    by (cases x) simp_all
  show "x \<le> y \<Longrightarrow> y \<le> z \<Longrightarrow> x \<le> z"
    by (cases x; cases y; cases z) simp_all
  show "x \<le> y \<Longrightarrow> y \<le> x \<Longrightarrow> x = y"
    by (cases x; cases y) simp_all
  show "x \<le> y \<or> y \<le> x"
    by (cases x; cases y) auto
qed

end

text \<open>
  The floating-point operations of the tensor library that the decoder calls:
  \<^verbatim>\<open>F.softmax(t, dim=-1)\<close>, \<^verbatim>\<open>torch.cumsum(t, dim=-1)\<close> and the division of a tensor
  by a scalar. They are parameters of the model, so that a theorem proved for every
  \<open>torch\<close> holds whatever rounding these operations perform. Probabilities are reals.
\<close>

record torch =
  softmax :: "score list \<Rightarrow> real list"
  cumsum :: "real list \<Rightarrow> real list"
  tensor_div :: "score list \<Rightarrow> real \<Rightarrow> score list"

text \<open>The three operations return a tensor of the shape of their argument.\<close>

definition shape_preserving :: "torch \<Rightarrow> bool" where
  "shape_preserving T \<longleftrightarrow>
     (\<forall>xs. length (softmax T xs) = length xs) \<and>
     (\<forall>ps. length (cumsum T ps) = length ps) \<and>
     (\<forall>xs t. length (tensor_div T xs t) = length xs)"

text \<open>
  The same operations in exact real arithmetic, for concrete evaluations. The division is
  the library's for a positive scalar.
\<close>

fun expo :: "score \<Rightarrow> real" where
  "expo NegInf = 0"
| "expo (Fin x) = exp x"

definition exact_softmax :: "score list \<Rightarrow> real list" where
  "exact_softmax xs = map (\<lambda>x. expo x / sum_list (map expo xs)) xs"

definition exact_cumsum :: "real list \<Rightarrow> real list" where
  "exact_cumsum ps = map (\<lambda>i. sum_list (take (Suc i) ps)) [0..<length ps]"

fun div_score :: "real \<Rightarrow> score \<Rightarrow> score" where
  "div_score t NegInf = NegInf"
| "div_score t (Fin x) = Fin (x / t)"

definition exact_torch :: torch where
  "exact_torch = \<lparr>softmax = exact_softmax, cumsum = exact_cumsum,
                   tensor_div = (\<lambda>xs t. map (div_score t) xs)\<rparr>"

subsection \<open>Filtering\<close>

text \<open>\<^verbatim>\<open>torch.topk(logits, k)[0]\<close>: the \<open>k\<close> largest values, largest first.\<close>

definition topk_values :: "score list \<Rightarrow> nat \<Rightarrow> score list" where
  "topk_values xs k = take k (rev (sort xs))"

text \<open>
  The indices returned by \<^verbatim>\<open>torch.sort(logits, descending=True)\<close>: a permutation of the
  indices along which the values descend. Equal values are taken in the order of their
  indices; the library leaves that order open.
\<close>

definition argsort_descending :: "score list \<Rightarrow> nat list" where
  "argsort_descending xs = rev (sort_key (\<lambda>i. xs ! i) (rev [0..<length xs]))"

text \<open>\<^verbatim>\<open>t[mask] = v\<close> for a boolean mask of the shape of \<open>t\<close>.\<close>

definition masked_fill :: "'a list \<Rightarrow> bool list \<Rightarrow> 'a \<Rightarrow> 'a list" where
  "masked_fill xs msk v = map (\<lambda>(x, b). if b then v else x) (zip xs msk)"

text \<open>\<^verbatim>\<open>t[indices] = v\<close> for a tensor of indices.\<close>

definition index_fill :: "'a list \<Rightarrow> nat list \<Rightarrow> 'a \<Rightarrow> 'a list" where
  "index_fill xs idxs v = fold (\<lambda>i ys. ys[i := v]) idxs xs"

datatype error = IndexError | RuntimeError

text \<open>
  The three stages of \<^verbatim>\<open>top_filtering\<close>, in the order of the source. The tensor is
  updated in place there; here every stage returns the new tensor.
\<close>

definition top_k_filter :: "score list \<Rightarrow> int \<Rightarrow> score \<Rightarrow> score list" where
  "top_k_filter logits top_k filter_value =
     (let top_k = min top_k (int (length logits)) in
      if top_k > 0
      then masked_fill logits
             (map (\<lambda>x. x < last (topk_values logits (nat top_k))) logits) filter_value
      else logits)"

text \<open>
  The shift of the mask, \<^verbatim>\<open>m[..., 1:] = m[..., :-1].clone(); m[..., 0] = 0\<close>, gives
  \<open>False # butlast m\<close>; on an empty tensor the assignment to index 0 raises
  \<^verbatim>\<open>IndexError\<close>.
\<close>

definition top_p_filter :: "torch \<Rightarrow> score list \<Rightarrow> real \<Rightarrow> score \<Rightarrow> error + score list" where
  "top_p_filter T logits top_p filter_value =
     (if top_p > 0
      then (let sorted_indices = argsort_descending logits;
                sorted_logits = map (\<lambda>i. logits ! i) sorted_indices;
                cumulative_probabilities = cumsum T (softmax T sorted_logits);
                sorted_indices_to_remove = map (\<lambda>c. c > top_p) cumulative_probabilities
            in if sorted_indices_to_remove = [] then Inl IndexError
               else (let sorted_indices_to_remove = False # butlast sorted_indices_to_remove;
                         indices_to_remove =
                           map fst (filter snd (zip sorted_indices sorted_indices_to_remove))
                     in Inr (index_fill logits indices_to_remove filter_value)))
      else Inr logits)"

definition threshold_filter :: "score list \<Rightarrow> score \<Rightarrow> score \<Rightarrow> score list" where
  "threshold_filter logits threshold filter_value =
     masked_fill logits (map (\<lambda>x. x < threshold) logits) filter_value"

definition top_filtering ::
  "torch \<Rightarrow> score list \<Rightarrow> int \<Rightarrow> real \<Rightarrow> score \<Rightarrow> score \<Rightarrow> error + score list" where
  "top_filtering T logits top_k top_p threshold filter_value =
     (case top_p_filter T (top_k_filter logits top_k filter_value) top_p filter_value of
        Inl e \<Rightarrow> Inl e
      | Inr logits \<Rightarrow> Inr (threshold_filter logits threshold filter_value))"

subsection \<open>Sampling\<close>

text \<open>The fields of \<^verbatim>\<open>args\<close> that \<^verbatim>\<open>sample_sequence\<close> reads.\<close>

record args =
  max_length :: int
  min_length :: int
  temperature :: real
  do_sample :: bool
  top_k :: int
  top_p :: real

text \<open>\<^verbatim>\<open>torch.topk(probs, 1)[1]\<close>: the index of the largest entry (the first one, if several).\<close>

definition argmax :: "real list \<Rightarrow> nat" where
  "argmax xs = length (takeWhile (\<lambda>x. x \<noteq> Max (set xs)) xs)"

text \<open>
  The loop \<^verbatim>\<open>while prev.item() in special_tokens_ids\<close>. The random draw
  \<^verbatim>\<open>torch.multinomial(probs, num_samples=1)\<close> is a parameter that takes the distribution
  and the state of the random generator and returns the drawn index and the new state.
  The loop has no bound of its own, so it is a partial function: \<open>None\<close> means that it does not
  return. The count of emitted warnings is threaded through.
\<close>

partial_function (option) resample ::
  "(real list \<Rightarrow> 'r \<Rightarrow> nat \<times> 'r) \<Rightarrow> int list \<Rightarrow> real list \<Rightarrow> nat \<Rightarrow> nat \<Rightarrow> 'r
     \<Rightarrow> (nat \<times> nat \<times> 'r) option" where
  "resample multinomial specials probs prev warned r =
     (if int prev \<in> set specials
      then (if Max (set probs) = 1 then Some (prev, Suc warned, r)
            else resample multinomial specials probs
                   (fst (multinomial probs r)) warned (snd (multinomial probs r)))
      else Some (prev, warned, r))"

text \<open>
  One iteration of the loop \<^verbatim>\<open>for i in range(args.max_length)\<close> of the branch for the
  GPT models (the branch for the \<^verbatim>\<open>blender\<close> models hands the whole generation to the
  library). The model is a function from \<^verbatim>\<open>input_ids\<close> and \<^verbatim>\<open>token_type_ids\<close> to the
  logits at the last position. The result is \<open>None\<close> for a \<^verbatim>\<open>break\<close> and the token to
  append otherwise. Taking the largest entry of an empty tensor raises.
\<close>

definition sample_step ::
  "torch \<Rightarrow> (real list \<Rightarrow> 'r \<Rightarrow> nat \<times> 'r) \<Rightarrow> int list list \<Rightarrow> int list list \<Rightarrow> tokenizer
     \<Rightarrow> (int list \<Rightarrow> int list \<Rightarrow> score list) \<Rightarrow> args \<Rightarrow> nat \<Rightarrow> int list \<Rightarrow> nat \<Rightarrow> 'r
     \<Rightarrow> (error + int option \<times> nat \<times> 'r) option" where
  "sample_step T multinomial personality history tok model a i current_output warned r =
     (let inst = build_input_from_segments tok personality history current_output False False;
          logits = model (input_ids inst) (token_type_ids inst);
          logits = tensor_div T logits (temperature a)
      in case top_filtering T logits (top_k a) (top_p a) NegInf NegInf of
           Inl e \<Rightarrow> Some (Inl e)
         | Inr logits \<Rightarrow>
             (let probs = softmax T logits in
              if probs = [] then Some (Inl RuntimeError)
              else (let drawn = (if \<not> do_sample a then (argmax probs, r)
                                 else multinomial probs r)
                    in case (if int i < min_length a
                                  \<and> int (fst drawn) \<in> set (special_tokens_ids tok)
                             then resample multinomial (special_tokens_ids tok) probs
                                    (fst drawn) warned (snd drawn)
                             else Some (fst drawn, warned, snd drawn)) of
                         None \<Rightarrow> None
                       | Some (prev, warned, r) \<Rightarrow>
                           if int prev \<in> set (special_tokens_ids tok)
                           then Some (Inr (None, warned, r))
                           else Some (Inr (Some (int prev), warned, r)))))"

fun sample_loop ::
  "torch \<Rightarrow> (real list \<Rightarrow> 'r \<Rightarrow> nat \<times> 'r) \<Rightarrow> int list list \<Rightarrow> int list list \<Rightarrow> tokenizer
     \<Rightarrow> (int list \<Rightarrow> int list \<Rightarrow> score list) \<Rightarrow> args \<Rightarrow> nat \<Rightarrow> nat \<Rightarrow> int list \<Rightarrow> nat \<Rightarrow> 'r
     \<Rightarrow> (error + int list \<times> nat \<times> 'r) option" where
  "sample_loop T multinomial personality history tok model a 0 i current_output warned r =
     Some (Inr (current_output, warned, r))"
| "sample_loop T multinomial personality history tok model a (Suc n) i current_output warned r =
     (case sample_step T multinomial personality history tok model a i current_output warned r of
        None \<Rightarrow> None
      | Some (Inl e) \<Rightarrow> Some (Inl e)
      | Some (Inr (None, warned, r)) \<Rightarrow> Some (Inr (current_output, warned, r))
      | Some (Inr (Some t, warned, r)) \<Rightarrow>
          sample_loop T multinomial personality history tok model a n (Suc i)
            (current_output @ [t]) warned r)"

text \<open>
  \<^verbatim>\<open>sample_sequence\<close>: the result is the output sequence, the number of warnings and the
  final state of the random generator; \<open>Inl\<close> is a raised error and \<open>None\<close> a call that does
  not return.
\<close>

definition sample_sequence ::
  "torch \<Rightarrow> (real list \<Rightarrow> 'r \<Rightarrow> nat \<times> 'r) \<Rightarrow> int list list \<Rightarrow> int list list \<Rightarrow> tokenizer
     \<Rightarrow> (int list \<Rightarrow> int list \<Rightarrow> score list) \<Rightarrow> args \<Rightarrow> int list \<Rightarrow> 'r
     \<Rightarrow> (error + int list \<times> nat \<times> 'r) option" where
  "sample_sequence T multinomial personality history tok model a current_output r =
     sample_loop T multinomial personality history tok model a (nat (max_length a)) 0
       current_output 0 r"


subsection \<open>Samplers and concrete inputs\<close>

text \<open>
  A sampler draws from the support of the distribution when, for every distribution with a
  positive entry, the index it returns is in range and has positive probability.
\<close>

definition draws_from_support :: "(real list \<Rightarrow> 'r \<Rightarrow> nat \<times> 'r) \<Rightarrow> bool" where
  "draws_from_support multinomial \<longleftrightarrow>
     (\<forall>probs r. (\<exists>p \<in> set probs. 0 < p) \<longrightarrow>
        fst (multinomial probs r) < length probs \<and> 0 < probs ! fst (multinomial probs r))"

text \<open>Two samplers without state: the first index of positive probability, and a fixed index.\<close>

definition first_positive :: "real list \<Rightarrow> unit \<Rightarrow> nat \<times> unit" where
  "first_positive probs r = (length (takeWhile (\<lambda>p. \<not> 0 < p) probs), r)"


text \<open>
  A model over a vocabulary of six tokens (the five reserved ones and token 5) that scores
  \<^verbatim>\<open><bos>\<close> and \<^verbatim>\<open><eos>\<close> equally and above every other token, with arguments that keep
  the two highest scores.
\<close>

definition split_model :: "int list \<Rightarrow> int list \<Rightarrow> score list" where
  "split_model ids types = [Fin 0, Fin 0, Fin (- 1), Fin (- 1), Fin (- 1), Fin (- 1)]"

definition split_args :: args where
  "split_args = \<lparr>max_length = 20, min_length = 1, temperature = 1, do_sample = True,
                  top_k = 2, top_p = 9 / 10\<rparr>"




section \<open>Properties of the encoder\<close>

lemma tagged_sequence_eq:
  "tagged_sequence tok persona history reply with_eos =
     (bos tok # concat persona) #
       map (\<lambda>(i, s). (if (int (length history) + 2 - int i) mod 2 \<noteq> 0
                          then speaker2 tok else speaker1 tok) # s)
           (enumerate 0 (history @ [reply @ (if with_eos then [eos tok] else [])]))"
  by (simp add: tagged_sequence_def Let_def add.commute)

lemma length_tagged_sequence:
  "length (tagged_sequence tok persona history reply with_eos) = length history + 2"
  by (simp add: tagged_sequence_eq)

lemma tagged_sequence_nth:
  assumes "0 < j" "j < length history + 2"
  shows "tagged_sequence tok persona history reply with_eos ! j =
           (if (int (length history) + 3 - int j) mod 2 \<noteq> 0 then speaker2 tok else speaker1 tok)
             # (history @ [reply @ (if with_eos then [eos tok] else [])]) ! (j - 1)"
proof -
  obtain m where m: "j = Suc m" using assms(1) by (cases j) auto
  have "m < length (history @ [reply @ (if with_eos then [eos tok] else [])])"
    using assms(2) m by simp
  then show ?thesis
    unfolding tagged_sequence_eq m
    by (simp add: nth_enumerate_eq del: enumerate_append_eq) presburger
qed

lemma tagged_sequence_last:
  "last (tagged_sequence tok persona history reply with_eos) =
     speaker1 tok # reply @ (if with_eos then [eos tok] else [])"
  unfolding tagged_sequence_eq
  by (simp add: enumerate_append_eq)

lemma tagged_sequence_snoc:
  "tagged_sequence tok persona history reply with_eos =
     butlast (tagged_sequence tok persona history reply with_eos) @
       [speaker1 tok # reply @ (if with_eos then [eos tok] else [])]"
proof -
  have "tagged_sequence tok persona history reply with_eos \<noteq> []"
    by (simp add: tagged_sequence_eq)
  then show ?thesis
    using append_butlast_last_id tagged_sequence_last by metis
qed

lemma token_type_lengths:
  "map length (map (\<lambda>(i, s). replicate (length s) (f i)) (enumerate n xs)) = map length xs"
  by (induction xs arbitrary: n) auto

lemma concat_nth_offset:
  assumes "j < length xss" "k < length (xss ! j)"
  shows "concat xss ! (seg_offset xss j + k) = xss ! j ! k"
proof -
  have "xss = take j xss @ (xss ! j) # drop (Suc j) xss"
    using assms(1) by (rule id_take_nth_drop)
  then have "concat xss = concat (take j xss) @ (xss ! j) @ concat (drop (Suc j) xss)"
    by (metis concat.simps(2) concat_append)
  moreover have "length (concat (take j xss)) = seg_offset xss j"
    by (simp add: seg_offset_def length_concat)
  ultimately show ?thesis
    using assms(2) by (simp add: nth_append)
qed

lemma input_ids_eq:
  "input_ids (build_input_from_segments tok persona history reply lbls with_eos) =
     concat (tagged_sequence tok persona history reply with_eos)"
  by (simp add: build_input_from_segments_def Let_def)

lemma token_type_ids_eq:
  "token_type_ids (build_input_from_segments tok persona history reply lbls with_eos) =
     concat (map (\<lambda>(i, s). replicate (length s)
                     (if i mod 2 \<noteq> 0 then speaker2 tok else speaker1 tok))
                 (enumerate 0 (tagged_sequence tok persona history reply with_eos)))"
  by (simp add: build_input_from_segments_def Let_def)

lemma labels_eq:
  "labels (build_input_from_segments tok persona history reply lbls with_eos) =
     (let sequence = tagged_sequence tok persona history reply with_eos in
      if lbls
      then replicate (sum_list (map length (butlast sequence))) (- 100)
             @ [- 100] @ tl (last sequence)
      else replicate (length (concat sequence)) (- 100))"
  by (simp add: build_input_from_segments_def Let_def)

lemma mc_token_ids_eq:
  "mc_token_ids (build_input_from_segments tok persona history reply lbls with_eos) =
     int (length (concat (tagged_sequence tok persona history reply with_eos))) - 1"
  by (simp add: build_input_from_segments_def Let_def)

lemma length_token_type_ids:
  "length (token_type_ids (build_input_from_segments tok persona history reply lbls with_eos)) =
     length (concat (tagged_sequence tok persona history reply with_eos))"
  unfolding token_type_ids_eq length_concat token_type_lengths ..

lemma length_concat_tagged:
  "length (concat (tagged_sequence tok persona history reply with_eos)) =
     sum_list (map length (butlast (tagged_sequence tok persona history reply with_eos)))
       + Suc (length (reply @ (if with_eos then [eos tok] else [])))"
proof -
  let ?q = "tagged_sequence tok persona history reply with_eos"
  have "length (concat ?q) =
          length (concat (butlast ?q @ [speaker1 tok # reply @ (if with_eos then [eos tok] else [])]))"
    using tagged_sequence_snoc [of tok persona history reply with_eos] by simp
  then show ?thesis
    by (simp add: length_concat)
qed

lemma length_labels:
  "length (labels (build_input_from_segments tok persona history reply lbls with_eos)) =
     length (concat (tagged_sequence tok persona history reply with_eos))"
  by (simp add: labels_eq Let_def tagged_sequence_last length_concat_tagged)

text \<open>
  Claim C2. For every persona, history and reply, for both values of the gold flag
  \<^verbatim>\<open>labels\<close> and with or without the end-of-sequence marker, the three arrays of the
  instance have the same length and \<^verbatim>\<open>mc_token_ids\<close> is the index of the last token,
  \<^verbatim>\<open>len(input_ids) - 1\<close>.
\<close>

theorem instance_arrays_aligned:
  "length (input_ids (build_input_from_segments tok persona history reply lbls with_eos)) =
     length (token_type_ids (build_input_from_segments tok persona history reply lbls with_eos))
   \<and> length (token_type_ids (build_input_from_segments tok persona history reply lbls with_eos)) =
     length (labels (build_input_from_segments tok persona history reply lbls with_eos))
   \<and> mc_token_ids (build_input_from_segments tok persona history reply lbls with_eos) =
     int (length (input_ids (build_input_from_segments tok persona history reply lbls with_eos))) - 1"
  by (simp add: input_ids_eq length_token_type_ids length_labels mc_token_ids_eq)

text \<open>
  Claim C5. Without the gold flag every label is the ignore value \<open>-100\<close>. With the gold
  flag the token ids are the earlier segments, then the reply's speaker token (always
  \<^verbatim>\<open>speaker1\<close>), then the reply tokens (with the end-of-sequence marker when requested),
  and the labels are \<open>-100\<close> over the earlier segments, \<open>-100\<close> at the position of the
  reply's speaker token, and the reply tokens themselves at the positions after it.
\<close>

theorem labels_masking:
  "labels (build_input_from_segments tok persona history reply False with_eos) =
     replicate (length (input_ids (build_input_from_segments tok persona history reply False with_eos)))
       (- 100)
   \<and> input_ids (build_input_from_segments tok persona history reply True with_eos) =
     concat (butlast (tagged_sequence tok persona history reply with_eos))
       @ [speaker1 tok] @ (reply @ (if with_eos then [eos tok] else []))
   \<and> labels (build_input_from_segments tok persona history reply True with_eos) =
     replicate (length (concat (butlast (tagged_sequence tok persona history reply with_eos)))) (- 100)
       @ [- 100] @ (reply @ (if with_eos then [eos tok] else []))"
proof (intro conjI)
  let ?q = "tagged_sequence tok persona history reply with_eos"
  let ?r = "reply @ (if with_eos then [eos tok] else [])"
  show "labels (build_input_from_segments tok persona history reply False with_eos) =
     replicate (length (input_ids (build_input_from_segments tok persona history reply False with_eos)))
       (- 100)"
    by (simp add: labels_eq input_ids_eq)
  have "concat ?q = concat (butlast ?q @ [speaker1 tok # ?r])"
    using tagged_sequence_snoc [of tok persona history reply with_eos] by simp
  then show "input_ids (build_input_from_segments tok persona history reply True with_eos) =
     concat (butlast ?q) @ [speaker1 tok] @ ?r"
    by (simp add: input_ids_eq)
  show "labels (build_input_from_segments tok persona history reply True with_eos) =
     replicate (length (concat (butlast ?q))) (- 100) @ [- 100] @ ?r"
    by (simp add: labels_eq Let_def tagged_sequence_last length_concat)
qed


lemma tagged_sequence_hd:
  assumes "0 < j" "j < length history + 2"
  shows "hd (tagged_sequence tok persona history reply with_eos ! j) =
           (if (int (length history) + 3 - int j) mod 2 \<noteq> 0 then speaker2 tok else speaker1 tok)"
  using tagged_sequence_nth [OF assms] by simp

lemma tagged_sequence_nth_nonempty:
  assumes "j < length history + 2"
  shows "tagged_sequence tok persona history reply with_eos ! j \<noteq> []"
proof (cases j)
  case 0
  then show ?thesis by (simp add: tagged_sequence_eq)
next
  case (Suc m)
  then show ?thesis using tagged_sequence_nth [of j history] assms by simp
qed

lemma input_ids_at_offset:
  assumes "j < length history + 2"
  shows "input_ids (build_input_from_segments tok persona history reply lbls with_eos)
           ! seg_offset (tagged_sequence tok persona history reply with_eos) j =
         hd (tagged_sequence tok persona history reply with_eos ! j)"
proof -
  let ?q = "tagged_sequence tok persona history reply with_eos"
  have ne: "?q ! j \<noteq> []" using assms by (rule tagged_sequence_nth_nonempty)
  then have "0 < length (?q ! j)" by simp
  with assms have "concat ?q ! (seg_offset ?q j + 0) = ?q ! j ! 0"
    by (intro concat_nth_offset) (simp_all add: length_tagged_sequence)
  then show ?thesis using ne by (simp add: input_ids_eq hd_conv_nth)
qed

text \<open>
  Claim C6. Two adjacent non-persona segments (indices \<open>j\<close> and \<open>j + 1\<close> of the segment list,
  \<open>j \<ge> 1\<close>) are prefixed with the two different speaker tokens, one with
  \<^verbatim>\<open>speaker1\<close> and the other with \<^verbatim>\<open>speaker2\<close>, and these prefixes are the entries of
  \<^verbatim>\<open>input_ids\<close> at the start positions of the segments. The reply segment is prefixed with
  \<^verbatim>\<open>speaker1\<close> whatever the length of the history.
\<close>

theorem speaker_roles_alternate:
  "(0 < j \<and> Suc j < length history + 2 \<longrightarrow>
      ((hd (tagged_sequence tok persona history reply with_eos ! j) = speaker1 tok \<and>
        hd (tagged_sequence tok persona history reply with_eos ! Suc j) = speaker2 tok) \<or>
       (hd (tagged_sequence tok persona history reply with_eos ! j) = speaker2 tok \<and>
        hd (tagged_sequence tok persona history reply with_eos ! Suc j) = speaker1 tok))
      \<and> input_ids (build_input_from_segments tok persona history reply lbls with_eos)
           ! seg_offset (tagged_sequence tok persona history reply with_eos) j =
         hd (tagged_sequence tok persona history reply with_eos ! j)
      \<and> input_ids (build_input_from_segments tok persona history reply lbls with_eos)
           ! seg_offset (tagged_sequence tok persona history reply with_eos) (Suc j) =
         hd (tagged_sequence tok persona history reply with_eos ! Suc j))
   \<and> hd (last (tagged_sequence tok persona history reply with_eos)) = speaker1 tok
   \<and> input_ids (build_input_from_segments tok persona history reply lbls with_eos)
         ! seg_offset (tagged_sequence tok persona history reply with_eos) (Suc (length history)) =
       speaker1 tok"
proof (intro conjI impI)
  let ?q = "tagged_sequence tok persona history reply with_eos"
  show r: "hd (last ?q) = speaker1 tok"
    by (simp add: tagged_sequence_last)
  have "?q \<noteq> []" by (simp add: tagged_sequence_eq)
  then have "last ?q = ?q ! Suc (length history)"
    by (simp add: last_conv_nth length_tagged_sequence)
  then show "input_ids (build_input_from_segments tok persona history reply lbls with_eos)
         ! seg_offset ?q (Suc (length history)) = speaker1 tok"
    using r input_ids_at_offset [of "Suc (length history)" history tok persona reply lbls with_eos]
    by simp
next
  let ?q = "tagged_sequence tok persona history reply with_eos"
  assume h: "0 < j \<and> Suc j < length history + 2"
  have a: "hd (?q ! j) =
      (if (int (length history) + 3 - int j) mod 2 \<noteq> 0 then speaker2 tok else speaker1 tok)"
    using h by (intro tagged_sequence_hd) simp_all
  have b: "hd (?q ! Suc j) =
      (if (int (length history) + 3 - int (Suc j)) mod 2 \<noteq> 0 then speaker2 tok else speaker1 tok)"
    using h by (intro tagged_sequence_hd) simp_all
  have c: "(int (length history) + 3 - int (Suc j)) mod 2 \<noteq> 0 \<longleftrightarrow>
           \<not> (int (length history) + 3 - int j) mod 2 \<noteq> 0"
    by presburger
  show "(hd (?q ! j) = speaker1 tok \<and> hd (?q ! Suc j) = speaker2 tok) \<or>
        (hd (?q ! j) = speaker2 tok \<and> hd (?q ! Suc j) = speaker1 tok)"
    unfolding a b c by simp
  show "input_ids (build_input_from_segments tok persona history reply lbls with_eos)
           ! seg_offset ?q j = hd (?q ! j)"
    using h by (intro input_ids_at_offset) simp
  show "input_ids (build_input_from_segments tok persona history reply lbls with_eos)
           ! seg_offset ?q (Suc j) = hd (?q ! Suc j)"
    using h by (intro input_ids_at_offset) simp
qed

theorem speaker_roles_alternate_witness:
  "(0::nat) < 1 \<and> Suc 1 < length [[7, 8, 9 :: int]] + 2 \<and>
   hd (tagged_sequence example_tokenizer [[5, 6]] [[7, 8, 9]] [10, 11] True ! 1) = 3 \<and>
   hd (tagged_sequence example_tokenizer [[5, 6]] [[7, 8, 9]] [10, 11] True ! 2) = 2 \<and>
   input_ids (build_input_from_segments example_tokenizer [[5, 6]] [[7, 8, 9]] [10, 11] True True) =
     [0, 5, 6, 3, 7, 8, 9, 2, 10, 11, 1]"
  using speaker_roles_alternate [of 1 "[[7, 8, 9]]" example_tokenizer "[[5, 6]]" "[10, 11]" True True]
  by (simp add: tagged_sequence_def build_input_from_segments_def example_tokenizer_def
      seg_offset_def enumerate_eq_zip upt_rec)

lemma token_type_segment:
  assumes "j < length xss" "k < length (xss ! j)"
  shows "concat (map (\<lambda>(i, s). replicate (length s) (f i)) (enumerate 0 xss)) ! (seg_offset xss j + k)
           = f j"
proof -
  let ?t = "map (\<lambda>(i, s). replicate (length s) (f i)) (enumerate 0 xss)"
  have l: "map length ?t = map length xss" by (rule token_type_lengths)
  have off: "seg_offset ?t j = seg_offset xss j"
    unfolding seg_offset_def take_map [symmetric] l ..
  have tj: "?t ! j = replicate (length (xss ! j)) (f j)"
    using assms(1) by (simp add: nth_enumerate_eq)
  have "concat ?t ! (seg_offset ?t j + k) = ?t ! j ! k"
    using assms by (intro concat_nth_offset) (simp_all add: tj)
  then show ?thesis using assms(2) by (simp add: off tj)
qed

text \<open>
  Claim C3, as the code has it. Every token of the segment with index \<open>j\<close> (the persona block
  is segment 0) has the token type \<^verbatim>\<open>speaker2\<close> when \<open>j\<close> is odd and
  \<^verbatim>\<open>speaker1\<close> when \<open>j\<close> is even; so the persona block has the type \<^verbatim>\<open>speaker1\<close>.
  When the history has an odd number of turns, the token type of every token of a non-persona
  segment is the speaker token that prefixes that segment in \<^verbatim>\<open>input_ids\<close>.
\<close>

theorem token_types_follow_segment_index:
  assumes "j < length history + 2"
      and "k < length (tagged_sequence tok persona history reply with_eos ! j)"
  shows "token_type_ids (build_input_from_segments tok persona history reply lbls with_eos)
           ! (seg_offset (tagged_sequence tok persona history reply with_eos) j + k) =
         (if j mod 2 \<noteq> 0 then speaker2 tok else speaker1 tok)
       \<and> (0 < j \<and> length history mod 2 = 1 \<longrightarrow>
           token_type_ids (build_input_from_segments tok persona history reply lbls with_eos)
             ! (seg_offset (tagged_sequence tok persona history reply with_eos) j + k) =
           input_ids (build_input_from_segments tok persona history reply lbls with_eos)
             ! seg_offset (tagged_sequence tok persona history reply with_eos) j)"
proof -
  let ?q = "tagged_sequence tok persona history reply with_eos"
  have jq: "j < length ?q" using assms(1) by (simp add: length_tagged_sequence)
  have t: "token_type_ids (build_input_from_segments tok persona history reply lbls with_eos)
           ! (seg_offset ?q j + k) = (if j mod 2 \<noteq> 0 then speaker2 tok else speaker1 tok)"
    unfolding token_type_ids_eq using jq assms(2) by (rule token_type_segment)
  have "(if j mod 2 \<noteq> 0 then speaker2 tok else speaker1 tok) =
        (if (int (length history) + 3 - int j) mod 2 \<noteq> 0 then speaker2 tok else speaker1 tok)"
    if "length history mod 2 = 1"
  proof -
    have "(int (length history) + 3 - int j) mod 2 \<noteq> 0 \<longleftrightarrow> j mod 2 \<noteq> 0"
      using that by presburger
    then show ?thesis by simp
  qed
  then show ?thesis
    using t input_ids_at_offset [OF assms(1)] tagged_sequence_hd [OF _ assms(1)]
    by simp
qed

theorem token_types_follow_segment_index_witness:
  "(1::nat) < length [[7, 8, 9 :: int]] + 2 \<and>
   (2::nat) < length (tagged_sequence example_tokenizer [[5, 6]] [[7, 8, 9]] [10, 11] True ! 1) \<and>
   (0::nat) < 1 \<and> length [[7, 8, 9 :: int]] mod 2 = 1 \<and>
   token_type_ids (build_input_from_segments example_tokenizer [[5, 6]] [[7, 8, 9]] [10, 11] True True)
     ! (seg_offset (tagged_sequence example_tokenizer [[5, 6]] [[7, 8, 9]] [10, 11] True) 1 + 2) = 3 \<and>
   input_ids (build_input_from_segments example_tokenizer [[5, 6]] [[7, 8, 9]] [10, 11] True True)
     ! seg_offset (tagged_sequence example_tokenizer [[5, 6]] [[7, 8, 9]] [10, 11] True) 1 = 3"
  using token_types_follow_segment_index
    [of 1 "[[7, 8, 9]]" 2 example_tokenizer "[[5, 6]]" "[10, 11]" True True]
  by (simp add: tagged_sequence_def build_input_from_segments_def example_tokenizer_def
      seg_offset_def enumerate_eq_zip upt_rec)

text \<open>
  With an empty history (an even number of turns) the reply segment is prefixed with
  \<^verbatim>\<open>speaker1\<close> (id 2) while its tokens have the type \<^verbatim>\<open>speaker2\<close> (id 3): the
  claim as stated, for every history length, does not hold.
\<close>

theorem token_types_even_history_counterexample:
  "input_ids (build_input_from_segments example_tokenizer [[5]] [] [7] False False) = [0, 5, 2, 7]
   \<and> token_type_ids (build_input_from_segments example_tokenizer [[5]] [] [7] False False) = [2, 2, 3, 3]
   \<and> tagged_sequence example_tokenizer [[5]] [] [7] False = [[0, 5], [2, 7]]
   \<and> token_type_ids (build_input_from_segments example_tokenizer [[5]] [] [7] False False) ! 2
       \<noteq> hd (tagged_sequence example_tokenizer [[5]] [] [7] False ! 1)"
  by (simp add: tagged_sequence_def build_input_from_segments_def example_tokenizer_def
      enumerate_eq_zip upt_rec)

section \<open>Properties of the filter\<close>

lemma shape_preserving_exact_torch: "shape_preserving exact_torch"
  by (simp add: shape_preserving_def exact_torch_def exact_softmax_def exact_cumsum_def)

lemma less_score_simps [simp]:
  "NegInf < Fin x" "Fin x < Fin y \<longleftrightarrow> x < y"
  by (auto simp: less_score_def)

lemma not_less_NegInf [simp]: "\<not> x < NegInf"
  by (cases x) (simp_all add: less_score_def)

lemma masked_fill_map:
  "masked_fill xs (map P xs) v = map (\<lambda>x. if P x then v else x) xs"
  by (induction xs) (simp_all add: masked_fill_def)

lemma length_index_fill: "length (index_fill xs idxs v) = length xs"
  unfolding index_fill_def by (induction idxs arbitrary: xs) simp_all

lemma nth_index_fill:
  "i < length xs \<Longrightarrow> index_fill xs idxs v ! i = (if i \<in> set idxs then v else xs ! i)"
  unfolding index_fill_def
proof (induction idxs arbitrary: xs)
  case Nil
  then show ?case by simp
next
  case (Cons a idxs)
  then show ?case by (simp add: nth_list_update)
qed

lemma top_k_filter_eq:
  "top_k_filter logits k fv =
     (if 0 < min k (int (length logits))
      then map (\<lambda>x. if x < last (topk_values logits (nat (min k (int (length logits)))))
                     then fv else x) logits
      else logits)"
  by (simp add: top_k_filter_def Let_def masked_fill_map)

lemma threshold_filter_eq:
  "threshold_filter logits th fv = map (\<lambda>x. if x < th then fv else x) logits"
  by (simp add: threshold_filter_def masked_fill_map)

lemma top_p_filter_cases:
  assumes "top_p_filter T xs p fv = Inr ys"
  shows "\<exists>idxs. ys = index_fill xs idxs fv"
proof (cases "0 < p")
  case True
  then show ?thesis
    using assms by (auto simp: top_p_filter_def Let_def split: if_splits)
next
  case False
  then have "ys = index_fill xs [] fv"
    using assms by (simp add: top_p_filter_def index_fill_def)
  then show ?thesis ..
qed

lemma top_filtering_stages:
  assumes "top_filtering T logits k p th fv = Inr ys"
  shows "\<exists>b. top_p_filter T (top_k_filter logits k fv) p fv = Inr b
             \<and> ys = threshold_filter b th fv"
  using assms by (auto simp: top_filtering_def split: sum.splits)

lemma length_top_k_filter: "length (top_k_filter logits k fv) = length logits"
  by (simp add: top_k_filter_eq)

lemma nth_top_k_filter:
  "i < length logits \<Longrightarrow>
     top_k_filter logits k fv ! i = logits ! i \<or> top_k_filter logits k fv ! i = fv"
  by (simp add: top_k_filter_eq)

text \<open>
  Claim C9. With \<^verbatim>\<open>top_k = 0\<close>, \<^verbatim>\<open>top_p = 0\<close> and the threshold negative infinity,
  \<^verbatim>\<open>top_filtering\<close> returns its input unchanged, for every logits vector (and every
  filter value and every implementation of the tensor operations).
\<close>

theorem top_filtering_identity:
  "top_filtering T logits 0 0 NegInf fv = Inr logits"
  by (simp add: top_filtering_def top_p_filter_def top_k_filter_eq threshold_filter_eq)

text \<open>
  Claim C10. For every combination of \<^verbatim>\<open>top_k\<close>, \<^verbatim>\<open>top_p\<close>, threshold and filter
  value, the vector that \<^verbatim>\<open>top_filtering\<close> returns has the length of its input, and each
  entry is the input entry at the same position or the filter value. An entry that is the
  filter value after the top-k stage or after the top-p stage is the filter value in the result.
\<close>

theorem top_filtering_frame:
  assumes "top_filtering T logits k p th fv = Inr ys"
  shows "length ys = length logits \<and>
         (\<forall>i<length logits.
            (ys ! i = logits ! i \<or> ys ! i = fv) \<and>
            (top_k_filter logits k fv ! i = fv \<longrightarrow> ys ! i = fv) \<and>
            (\<forall>b. top_p_filter T (top_k_filter logits k fv) p fv = Inr b \<longrightarrow> b ! i = fv
                   \<longrightarrow> ys ! i = fv))"
proof -
  let ?a = "top_k_filter logits k fv"
  obtain b where b: "top_p_filter T ?a p fv = Inr b" and ys: "ys = threshold_filter b th fv"
    using top_filtering_stages [OF assms] by blast
  obtain idxs where idxs: "b = index_fill ?a idxs fv"
    using top_p_filter_cases [OF b] by blast
  have lb: "length b = length logits"
    by (simp add: idxs length_index_fill length_top_k_filter)
  have len: "length ys = length logits"
    by (simp add: ys threshold_filter_eq lb)
  have "(ys ! i = logits ! i \<or> ys ! i = fv) \<and> (?a ! i = fv \<longrightarrow> ys ! i = fv) \<and>
        (\<forall>b'. top_p_filter T ?a p fv = Inr b' \<longrightarrow> b' ! i = fv \<longrightarrow> ys ! i = fv)"
    if i: "i < length logits" for i
  proof -
    have y: "ys ! i = b ! i \<or> ys ! i = fv"
      using i lb by (simp add: ys threshold_filter_eq)
    have y': "b ! i = fv \<Longrightarrow> ys ! i = fv"
      using y by auto
    have bi: "b ! i = ?a ! i \<or> b ! i = fv"
      using i by (simp add: idxs nth_index_fill length_top_k_filter)
    have ai: "?a ! i = logits ! i \<or> ?a ! i = fv"
      using i by (rule nth_top_k_filter)
    show ?thesis
      using y y' bi ai b by auto
  qed
  with len show ?thesis by blast
qed

theorem top_filtering_frame_witness:
  "top_filtering exact_torch [Fin 1, Fin 3, Fin 2] 2 0 (Fin 3) NegInf = Inr [NegInf, Fin 3, NegInf]
   \<and> length [NegInf, Fin 3, NegInf] = length [Fin 1, Fin 3, Fin 2]
   \<and> [NegInf, Fin 3, NegInf] ! 1 = [Fin 1, Fin 3, Fin 2] ! 1
   \<and> top_k_filter [Fin 1, Fin 3, Fin 2] 2 NegInf ! 0 = NegInf
   \<and> [NegInf, Fin 3, NegInf] ! 0 = NegInf"
proof -
  have a: "top_filtering exact_torch [Fin 1, Fin 3, Fin 2] 2 0 (Fin 3) NegInf
             = Inr [NegInf, Fin 3, NegInf]"
    by (simp add: top_filtering_def top_p_filter_def top_k_filter_eq threshold_filter_eq
        topk_values_def)
  have b: "top_k_filter [Fin 1, Fin 3, Fin 2] 2 NegInf ! 0 = NegInf"
    by (simp add: top_k_filter_eq topk_values_def)
  show ?thesis
    using a b top_filtering_frame [OF a] by simp
qed

lemma set_argsort_descending: "set (argsort_descending xs) = {0..<length xs}"
  by (simp add: argsort_descending_def)

lemma length_argsort_descending: "length (argsort_descending xs) = length xs"
  by (simp add: argsort_descending_def)

lemma distinct_argsort_descending: "distinct (argsort_descending xs)"
  by (simp add: argsort_descending_def)

lemma sorted_le_last:
  fixes ys :: "'a :: linorder list"
  assumes "sorted ys" "y \<in> set ys"
  shows "y \<le> last ys"
proof -
  obtain i where i: "i < length ys" "ys ! i = y"
    using assms(2) by (auto simp: in_set_conv_nth)
  then have ne: "ys \<noteq> []" by auto
  have "ys ! i \<le> ys ! (length ys - 1)"
    using assms(1) i(1) by (simp add: sorted_iff_nth_mono)
  then show ?thesis
    using i(2) ne by (simp add: last_conv_nth)
qed

lemma hd_argsort_descending_max:
  assumes "j < length xs"
  shows "xs ! j \<le> xs ! hd (argsort_descending xs)"
proof -
  let ?s = "sort_key (\<lambda>i. xs ! i) (rev [0..<length xs])"
  have ne: "?s \<noteq> []"
  proof
    assume e: "?s = []"
    have "set ?s = {0..<length xs}" by simp
    then have "{0..<length xs} = {}" unfolding e by simp
    then show False using assms by simp
  qed
  have "j \<in> set ?s" using assms by simp
  then have "xs ! j \<in> set (map (\<lambda>i. xs ! i) ?s)" unfolding set_map by (rule imageI)
  then have "xs ! j \<le> last (map (\<lambda>i. xs ! i) ?s)"
    by (intro sorted_le_last sorted_sort_key)
  then show ?thesis
    using ne by (simp add: argsort_descending_def hd_rev last_map)
qed

lemma removed_indices_tail:
  assumes "distinct (i0 # rest)"
  shows "i0 \<notin> set (map fst (filter snd (zip (i0 # rest) (False # m))))"
proof -
  have "set (map fst (filter snd (zip rest m))) \<subseteq> set rest"
    by (auto dest: set_zip_leftD)
  then show ?thesis using assms by auto
qed

lemma top_p_filter_keeps_max:
  assumes ne: "logits \<noteq> []" and sh: "shape_preserving T"
  shows "\<exists>ys. top_p_filter T logits p fv = Inr ys \<and> length ys = length logits
            \<and> ys ! hd (argsort_descending logits) = logits ! hd (argsort_descending logits)"
proof (cases "0 < p")
  case False
  then show ?thesis by (simp add: top_p_filter_def)
next
  case True
  let ?idx = "argsort_descending logits"
  let ?m = "map (\<lambda>c. p < c) (cumsum T (softmax T (map (\<lambda>i. logits ! i) ?idx)))"
  have lm: "length ?m = length logits"
    using sh by (simp add: shape_preserving_def length_argsort_descending)
  then have mne: "?m \<noteq> []" using ne by auto
  obtain i0 rest where ir: "?idx = i0 # rest"
    using ne length_argsort_descending [of logits] by (cases ?idx) auto
  have d: "distinct (i0 # rest)"
    using distinct_argsort_descending [of logits] ir by simp
  have "i0 \<in> set ?idx" by (simp add: ir)
  then have i0: "i0 < length logits"
    by (simp add: set_argsort_descending)
  let ?rm = "map fst (filter snd (zip ?idx (False # butlast ?m)))"
  have eq: "top_p_filter T logits p fv = Inr (index_fill logits ?rm fv)"
    using True mne by (simp add: top_p_filter_def Let_def)
  have "i0 \<notin> set ?rm"
    unfolding ir using d by (rule removed_indices_tail)
  then have "index_fill logits ?rm fv ! i0 = logits ! i0"
    using i0 by (simp add: nth_index_fill)
  then show ?thesis
    using eq ir by (simp add: length_index_fill)
qed

text \<open>
  Claim C7. For a logits vector with at least one entry and \<^verbatim>\<open>top_p > 0\<close> (with
  \<^verbatim>\<open>top_k = 0\<close> and the default threshold and filter value), \<^verbatim>\<open>top_filtering\<close> returns
  a vector in which a position of the highest score still holds its input value, however small
  \<^verbatim>\<open>top_p\<close> is. So whenever the input has a finite entry, the result has one, at that
  position.
\<close>

theorem top_p_keeps_highest_score:
  assumes "logits \<noteq> []" and "0 < p" and "shape_preserving T"
  shows "\<exists>ys i. top_filtering T logits 0 p NegInf NegInf = Inr ys
           \<and> length ys = length logits \<and> i < length logits
           \<and> (\<forall>j<length logits. logits ! j \<le> logits ! i)
           \<and> ys ! i = logits ! i
           \<and> (\<forall>x. Fin x \<in> set logits \<longrightarrow> (\<exists>y. ys ! i = Fin y))"
proof -
  define i where "i = hd (argsort_descending logits)"
  have k0: "top_k_filter logits 0 NegInf = logits"
    by (simp add: top_k_filter_eq)
  obtain b where b1: "top_p_filter T logits p NegInf = Inr b"
      and b2: "length b = length logits" and b3: "b ! i = logits ! i"
    using top_p_filter_keeps_max [OF assms(1,3), of p NegInf] unfolding i_def by (elim exE conjE)
  have r: "top_filtering T logits 0 p NegInf NegInf = Inr b"
    by (simp add: top_filtering_def k0 b1 threshold_filter_eq)
  have "length (argsort_descending logits) \<noteq> 0"
    using assms(1) by (simp add: length_argsort_descending)
  then have "argsort_descending logits \<noteq> []"
    by simp
  then have "i \<in> set (argsort_descending logits)"
    unfolding i_def by (rule hd_in_set)
  then have il: "i < length logits"
    unfolding set_argsort_descending by simp
  have mx: "logits ! j \<le> logits ! i" if "j < length logits" for j
    unfolding i_def using that by (rule hd_argsort_descending_max)
  have fin: "\<exists>y. b ! i = Fin y" if h: "Fin x \<in> set logits" for x
  proof -
    obtain j where j: "j < length logits" "logits ! j = Fin x"
      using h unfolding in_set_conv_nth by blast
    have "Fin x \<le> logits ! i" using mx [OF j(1)] j(2) by simp
    then show ?thesis unfolding b3 by (cases "logits ! i") simp_all
  qed
  show ?thesis
  proof (intro exI [of _ b] exI [of _ i] conjI allI impI)
    show "top_filtering T logits 0 p NegInf NegInf = Inr b" by (rule r)
    show "length b = length logits" by (rule b2)
    show "i < length logits" by (rule il)
    show "b ! i = logits ! i" by (rule b3)
    show "logits ! j \<le> logits ! i" if "j < length logits" for j using that by (rule mx)
    show "\<exists>y. b ! i = Fin y" if "Fin x \<in> set logits" for x using that by (rule fin)
  qed
qed

lemma top_p_example:
  "top_filtering exact_torch [Fin 0, Fin 0] 0 (1/4) NegInf NegInf = Inr [Fin 0, NegInf]"
  by (simp add: top_filtering_def top_p_filter_def top_k_filter_eq threshold_filter_eq
      argsort_descending_def exact_torch_def exact_softmax_def exact_cumsum_def index_fill_def
      upt_rec)

theorem top_p_keeps_highest_score_witness:
  "[Fin 0, Fin 0] \<noteq> [] \<and> 0 < (1/4 :: real) \<and> shape_preserving exact_torch \<and>
   (\<exists>ys i. top_filtering exact_torch [Fin 0, Fin 0] 0 (1/4) NegInf NegInf = Inr ys
           \<and> length ys = length [Fin 0, Fin 0] \<and> i < length [Fin 0, Fin 0]
           \<and> ys ! i = [Fin 0, Fin 0] ! i)
   \<and> top_filtering exact_torch [Fin 0, Fin 0] 0 (1/4) NegInf NegInf = Inr [Fin 0, NegInf]"
proof -
  have a: "[Fin 0, Fin 0] \<noteq> []" by simp
  have b: "0 < (1/4 :: real)" by simp
  have "\<exists>ys i. top_filtering exact_torch [Fin 0, Fin 0] 0 (1/4) NegInf NegInf = Inr ys
           \<and> length ys = length [Fin 0, Fin 0] \<and> i < length [Fin 0, Fin 0]
           \<and> ys ! i = [Fin 0, Fin 0] ! i"
    using top_p_keeps_highest_score [OF a b shape_preserving_exact_torch] by blast
  then show ?thesis
    using a b shape_preserving_exact_torch top_p_example by (intro conjI)
qed

lemma length_filter_sort:
  fixes xs :: "'a :: linorder list"
  shows "length (filter P (sort xs)) = length (filter P xs)"
proof -
  have "mset (filter P (sort xs)) = mset (filter P xs)"
    by simp
  then show ?thesis by (rule mset_eq_length)
qed

lemma sorted_suffix_count:
  fixes s :: "'a :: linorder list"
  assumes "sorted s" and "0 < m" and "m \<le> length s"
  shows "m \<le> length (filter (\<lambda>x. \<not> x < s ! (length s - m)) s)"
    and "distinct s \<Longrightarrow> length (filter (\<lambda>x. \<not> x < s ! (length s - m)) s) = m"
proof -
  let ?c = "length s - m"
  let ?P = "\<lambda>x. \<not> x < s ! ?c"
  have c: "?c < length s" using assms(2,3) by simp
  have split: "s = take ?c s @ drop ?c s" by simp
  have hi: "filter ?P (drop ?c s) = drop ?c s"
  proof -
    have "?P x" if "x \<in> set (drop ?c s)" for x
    proof -
      obtain j where j: "j < length (drop ?c s)" "drop ?c s ! j = x"
        using \<open>x \<in> set (drop ?c s)\<close> unfolding in_set_conv_nth by blast
      have "s ! ?c \<le> s ! (?c + j)"
        using assms(1) j(1) by (simp add: sorted_iff_nth_mono)
      then show ?thesis using j by (simp add: not_less)
    qed
    then show ?thesis by (simp add: filter_id_conv)
  qed
  have ld: "length (drop ?c s) = m" using assms(3) by simp
  have "length (filter ?P s) = length (filter ?P (take ?c s)) + length (filter ?P (drop ?c s))"
    by (metis filter_append length_append split)
  then have cnt: "length (filter ?P s) = length (filter ?P (take ?c s)) + m"
    by (simp only: hi ld)
  then show "m \<le> length (filter ?P s)" by simp
  show "length (filter ?P s) = m" if d: "distinct s"
  proof -
    have "\<not> ?P x" if "x \<in> set (take ?c s)" for x
    proof -
      obtain j where j: "j < length (take ?c s)" "take ?c s ! j = x"
        using \<open>x \<in> set (take ?c s)\<close> unfolding in_set_conv_nth by blast
      then have jc: "j < ?c" by simp
      have le: "s ! j \<le> s ! ?c"
        using assms(1) jc c by (simp add: sorted_iff_nth_mono)
      have "s ! j \<noteq> s ! ?c"
        using d jc c by (simp add: nth_eq_iff_index_eq)
      then have "s ! j < s ! ?c" using le by simp
      then show ?thesis using j by simp
    qed
    then have "filter ?P (take ?c s) = []"
      by (simp add: filter_empty_conv)
    then show ?thesis using cnt by simp
  qed
qed

lemma kth_largest_count:
  fixes xs :: "score list"
  assumes "0 < m" and "m \<le> length xs"
  shows "m \<le> length (filter (\<lambda>x. \<not> x < rev (sort xs) ! (m - 1)) xs)"
    and "distinct xs \<Longrightarrow> length (filter (\<lambda>x. \<not> x < rev (sort xs) ! (m - 1)) xs) = m"
proof -
  let ?s = "sort xs"
  have m: "m \<le> length ?s" using assms(2) by simp
  have k: "rev ?s ! (m - 1) = ?s ! (length ?s - m)"
    using assms by (simp add: rev_nth)
  have s: "sorted ?s" by simp
  show "m \<le> length (filter (\<lambda>x. \<not> x < rev (sort xs) ! (m - 1)) xs)"
    unfolding k length_filter_sort [of _ xs, symmetric]
    using s assms(1) m by (rule sorted_suffix_count(1))
  show "length (filter (\<lambda>x. \<not> x < rev (sort xs) ! (m - 1)) xs) = m" if "distinct xs"
  proof -
    have d: "distinct ?s" using that by simp
    show ?thesis
      unfolding k length_filter_sort [of _ xs, symmetric]
      using s assms(1) m d by (rule sorted_suffix_count(2))
  qed
qed

lemma last_topk_values:
  assumes "0 < m" and "m \<le> length xs"
  shows "last (topk_values xs m) = rev (sort xs) ! (m - 1)"
proof -
  have "length (take m (rev (sort xs))) = m" using assms by simp
  then have "take m (rev (sort xs)) \<noteq> []" using assms(1) by (metis length_0_conv less_not_refl)
  then show ?thesis
    using assms by (simp add: topk_values_def last_conv_nth)
qed

text \<open>
  Claim C8, as the code has it. With \<^verbatim>\<open>top_p = 0\<close> and the default threshold, for
  \<^verbatim>\<open>top_k > 0\<close> the filter replaces exactly the entries strictly below the \<open>m\<close>-th highest
  score by the filter value, where \<open>m = min(top_k, len(logits))\<close>, and leaves every other
  entry unchanged. At least \<open>m\<close> entries are left unchanged; exactly \<open>m\<close> when the scores are
  pairwise distinct.
\<close>

theorem top_k_keeps_scores_not_below_kth:
  "top_filtering T logits k 0 NegInf fv =
     Inr (map (\<lambda>x. if 0 < k \<and> x < rev (sort logits) ! (nat (min k (int (length logits))) - 1)
                     then fv else x) logits)
   \<and> (0 < k \<longrightarrow>
        nat (min k (int (length logits)))
          \<le> length (filter (\<lambda>x. \<not> x < rev (sort logits) ! (nat (min k (int (length logits))) - 1))
                      logits)
        \<and> (distinct logits \<longrightarrow>
             length (filter (\<lambda>x. \<not> x < rev (sort logits) ! (nat (min k (int (length logits))) - 1))
                      logits)
             = nat (min k (int (length logits)))))"
proof (cases "logits = [] \<or> k \<le> 0")
  case True
  then show ?thesis
    by (auto simp: top_filtering_def top_p_filter_def top_k_filter_eq threshold_filter_eq)
next
  case False
  let ?m = "nat (min k (int (length logits)))"
  have m: "0 < ?m" "?m \<le> length logits" using False by auto
  have pos: "0 < min k (int (length logits))" using False by auto
  have l: "last (topk_values logits ?m) = rev (sort logits) ! (?m - 1)"
    using m by (rule last_topk_values)
  have k: "0 < k" using False by simp
  have a: "top_filtering T logits k 0 NegInf fv =
     Inr (map (\<lambda>x. if 0 < k \<and> x < rev (sort logits) ! (?m - 1) then fv else x) logits)"
    using pos k by (simp add: top_filtering_def top_p_filter_def top_k_filter_eq threshold_filter_eq l)
  show ?thesis
    using a kth_largest_count [OF m] by simp
qed

theorem top_k_keeps_scores_not_below_kth_witness:
  "0 < (2::int) \<and> distinct [Fin 1, Fin 3, Fin 2]
   \<and> top_filtering exact_torch [Fin 1, Fin 3, Fin 2] 2 0 NegInf NegInf = Inr [NegInf, Fin 3, Fin 2]
   \<and> length (filter (\<lambda>x. \<not> x < Fin 2) [Fin 1, Fin 3, Fin 2]) = 2"
  using top_k_keeps_scores_not_below_kth [of exact_torch "[Fin 1, Fin 3, Fin 2]" 2 NegInf]
  by simp

text \<open>
  Two equal scores and \<^verbatim>\<open>top_k = 1\<close>: both entries survive, not exactly one.
\<close>

theorem top_k_ties_counterexample:
  "top_filtering exact_torch [Fin 1, Fin 1] 1 0 NegInf NegInf = Inr [Fin 1, Fin 1]
   \<and> length (filter (\<lambda>x. x \<noteq> NegInf) [Fin 1, Fin 1]) \<noteq> 1"
  by (simp add: top_filtering_def top_p_filter_def top_k_filter_eq threshold_filter_eq topk_values_def)

section \<open>Properties of the sampling loop\<close>

text \<open>
  The two ways out of the resampling loop: a token that is not reserved is returned as it is,
  and a reserved token is accepted, with a warning, when one entry of the distribution is 1.
\<close>

lemma resample_not_special:
  "int prev \<notin> set specials \<Longrightarrow> resample mn specials probs prev w r = Some (prev, w, r)"
  by (subst resample.simps) simp
















lemma split_filtered:
  "top_filtering exact_torch
     (tensor_div exact_torch [Fin 0, Fin 0, Fin (- 1), Fin (- 1), Fin (- 1), Fin (- 1)] 1)
     2 (9 / 10) NegInf NegInf = Inr [Fin 0, Fin 0, NegInf, NegInf, NegInf, NegInf]"
  by (simp add: top_filtering_def top_p_filter_def top_k_filter_eq threshold_filter_eq
      topk_values_def argsort_descending_def exact_torch_def exact_softmax_def exact_cumsum_def
      index_fill_def upt_rec)

lemma split_probs:
  "softmax exact_torch [Fin 0, Fin 0, NegInf, NegInf, NegInf, NegInf] = [1/2, 1/2, 0, 0, 0, 0]"
  by (simp add: exact_torch_def exact_softmax_def)

lemma split_draws:
  assumes "draws_from_support mn"
  shows "fst (mn [1/2, 1/2, 0, 0, 0, 0] r) < 2"
proof -
  let ?d = "fst (mn [1/2, 1/2, 0, 0, 0, 0] r)"
  have "\<exists>p \<in> set [1/2, 1/2, 0, 0, 0, 0 :: real]. 0 < p" by simp
  then have d: "?d < length [1/2, 1/2, 0, 0, 0, 0 :: real] \<and> 0 < [1/2, 1/2, 0, 0, 0, 0 :: real] ! ?d"
    using assms unfolding draws_from_support_def by blast
  show ?thesis
  proof (rule ccontr)
    assume "\<not> ?d < 2"
    then have "?d = 2 \<or> ?d = 3 \<or> ?d = 4 \<or> ?d = 5" using d by auto
    then show False using d by auto
  qed
qed

lemma split_resample:
  assumes "draws_from_support mn" and "prev < 2"
  shows "resample mn [0, 1, 2, 3, 4] [1/2, 1/2, 0, 0, 0, 0] prev w r = None"
proof (cases "resample mn [0, 1, 2, 3, 4] [1/2, 1/2, 0, 0, 0, 0] prev w r")
  case None
  then show ?thesis .
next
  case (Some y)
  have "mn = mn \<longrightarrow> [0, 1, 2, 3, 4] = [0, 1, 2, 3, 4 :: int]
          \<longrightarrow> [1/2, 1/2, 0, 0, 0, 0] = [1/2, 1/2, 0, 0, 0, 0 :: real] \<longrightarrow> prev < 2 \<longrightarrow> False"
  proof (rule resample.raw_induct
      [where P = "\<lambda>mn' specials probs prev w r y. mn' = mn \<longrightarrow> specials = [0, 1, 2, 3, 4]
                    \<longrightarrow> probs = [1/2, 1/2, 0, 0, 0, 0] \<longrightarrow> prev < 2 \<longrightarrow> False", OF _ Some])
    fix rs :: "(real list \<Rightarrow> 'a \<Rightarrow> nat \<times> 'a) \<Rightarrow> int list \<Rightarrow> real list \<Rightarrow> nat \<Rightarrow> nat \<Rightarrow> 'a
                 \<Rightarrow> (nat \<times> nat \<times> 'a) option"
      and mn' specials probs prev w r y
    assume ih: "\<And>mn' specials probs prev w r y. rs mn' specials probs prev w r = Some y \<Longrightarrow>
                  mn' = mn \<longrightarrow> specials = [0, 1, 2, 3, 4]
                    \<longrightarrow> probs = [1/2, 1/2, 0, 0, 0, 0] \<longrightarrow> prev < 2 \<longrightarrow> False"
      and body: "(if int prev \<in> set specials
                  then if Max (set probs) = 1 then Some (prev, Suc w, r)
                       else rs mn' specials probs (fst (mn' probs r)) w (snd (mn' probs r))
                  else Some (prev, w, r)) = Some y"
    show "mn' = mn \<longrightarrow> specials = [0, 1, 2, 3, 4]
            \<longrightarrow> probs = [1/2, 1/2, 0, 0, 0, 0] \<longrightarrow> prev < 2 \<longrightarrow> False"
    proof (intro impI)
      assume e1: "mn' = mn" and e2: "specials = [0, 1, 2, 3, 4]"
        and e3: "probs = [1/2, 1/2, 0, 0, 0, 0]" and p: "prev < 2"
      have "int prev \<in> set specials" using p e2 by auto
      moreover have "Max (set probs) \<noteq> 1" unfolding e3 by simp
      ultimately have c: "rs mn' specials probs (fst (mn' probs r)) w (snd (mn' probs r)) = Some y"
        using body by simp
      have "fst (mn' probs r) < 2"
        unfolding e1 e3 using assms(1) by (rule split_draws)
      then show False using ih [OF c] e1 e2 e3 by simp
    qed
  qed
  then show ?thesis using assms(2) by simp
qed

text \<open>
  The outer loop runs at most \<^verbatim>\<open>max_length\<close> iterations: the call returns whenever every
  iteration does, so only the resampling loop can keep it from returning.
\<close>

lemma sample_loop_returns:
  assumes "\<And>i out w r. sample_step T mn p h tok m a i out w r \<noteq> None"
  shows "sample_loop T mn p h tok m a n i out w r \<noteq> None"
proof (induction n arbitrary: i out w r)
  case 0
  show ?case by simp
next
  case (Suc n)
  obtain y where y: "sample_step T mn p h tok m a i out w r = Some y"
    using assms [of i out w r] by auto
  show ?case
  proof (cases y)
    case (Inl e)
    then show ?thesis by (simp add: y)
  next
    case (Inr z)
    obtain t w' r' where z: "z = (t, w', r')" by (cases z)
    show ?thesis
      using Suc.IH by (cases t) (simp_all add: y Inr z)
  qed
qed

lemma sample_loop_stuck:
  assumes "sample_step T mn p h tok m a i out w r = None" and "0 < n"
  shows "sample_loop T mn p h tok m a n i out w r = None"
  using assms by (cases n) simp_all

lemma takeWhile_stops:
  "\<exists>x \<in> set xs. \<not> P x \<Longrightarrow> length (takeWhile P xs) < length xs"
  by (induction xs) auto

lemma split_step:
  assumes "draws_from_support mn"
  shows "sample_step exact_torch mn p h example_tokenizer split_model split_args 0 out w r = None"
proof -
  have sp: "special_tokens_ids example_tokenizer = [0, 1, 2, 3, 4]"
    by (simp add: special_tokens_ids_def example_tokenizer_def)
  have d: "fst (mn [1/2, 1/2, 0, 0, 0, 0] r) < 2"
    using assms by (rule split_draws)
  then have m: "int (fst (mn [1/2, 1/2, 0, 0, 0, 0] r)) \<in> set [0, 1, 2, 3, 4]"
    by auto
  have "resample mn [0, 1, 2, 3, 4] [1/2, 1/2, 0, 0, 0, 0]
          (fst (mn [1/2, 1/2, 0, 0, 0, 0] r)) w (snd (mn [1/2, 1/2, 0, 0, 0, 0] r)) = None"
    using assms d by (rule split_resample)
  then show ?thesis
    unfolding sample_step_def Let_def split_model_def
    using m by (simp add: split_args_def split_filtered split_probs sp)
qed

text \<open>
  Claim C1 does not hold of the code. The guard \<^verbatim>\<open>probs.max().item() == 1\<close> ends the
  resampling only when one token has the whole probability. When the probability is split
  between two reserved tokens (here \<open>1/2\<close> for \<^verbatim>\<open><bos>\<close> and \<open>1/2\<close> for \<^verbatim>\<open><eos>\<close>), every
  draw is a reserved token and the loop \<^verbatim>\<open>while prev.item() in special_tokens_ids\<close> never
  ends: for every sampler that draws from the support, \<^verbatim>\<open>sample_sequence\<close> does not return.
\<close>

theorem resampling_never_returns:
  assumes "draws_from_support mn"
  shows "sample_sequence exact_torch mn p h example_tokenizer split_model split_args [] r = None"
proof -
  have n: "0 < nat (max_length split_args)"
    by (simp add: split_args_def)
  show ?thesis
    unfolding sample_sequence_def
    using split_step [OF assms] n by (rule sample_loop_stuck)
qed

lemma first_positive_draws: "draws_from_support first_positive"
  unfolding draws_from_support_def
proof (intro allI impI)
  fix probs :: "real list" and r :: unit
  assume "\<exists>p \<in> set probs. 0 < p"
  then have l: "length (takeWhile (\<lambda>p. \<not> 0 < p) probs) < length probs"
    by (intro takeWhile_stops) simp
  then have "\<not> \<not> 0 < probs ! length (takeWhile (\<lambda>p. \<not> 0 < p) probs)"
    by (rule nth_length_takeWhile)
  then show "fst (first_positive probs r) < length probs
               \<and> 0 < probs ! fst (first_positive probs r)"
    using l by (simp add: first_positive_def)
qed

theorem resampling_never_returns_witness:
  "sample_sequence exact_torch first_positive [[10]] [[11]] example_tokenizer split_model split_args
     [] () = None"
  using resampling_never_returns [OF first_positive_draws] by simp

end
